theory Spec2Isabelle
  imports Complex_Main
begin

section \<open>The hyperbolic Kepler solver and the two-body propagation of simulate\_3i\_atlas.py\<close>

text \<open>
  The program computes with Python floats and NumPy doubles. The model takes them as
  the real numbers, as the specification's signatures do (\<open>Mh: real\<close>, \<open>e: real\<close>):
  \<open>math.sinh\<close>, \<open>math.cosh\<close>, \<open>np.arcsinh\<close> and \<open>math.sqrt\<close> are the functions
  \<^const>\<open>sinh\<close>, \<^const>\<open>cosh\<close>, \<^const>\<open>arsinh\<close> and \<^const>\<open>sqrt\<close> on \<^typ>\<open>real\<close>, and
  arithmetic is exact. Rounding and the overflow of a double are outside the model.
  What Python raises on exact values is kept: a float division by zero and the square
  root of a negative number are error values.
\<close>

subsection \<open>Errors\<close>

datatype error = ZeroDivisionError | ValueError

text \<open>Python's \<open>x / y\<close> on floats.\<close>

definition py_div :: "real \<Rightarrow> real \<Rightarrow> error + real" where
  "py_div x y = (if y = 0 then Inl ZeroDivisionError else Inr (x / y))"


subsection \<open>solve\_H\<close>

text \<open>
  Lines 31 to 34: the starting value. \<open>Mh / e\<close> and \<open>Mh / (e - 1.0)\<close> are float
  divisions.
\<close>

definition initial_guess :: "real \<Rightarrow> real \<Rightarrow> error + real" where
  "initial_guess Mh e =
     (if \<bar>Mh\<bar> > 1
      then (case py_div Mh e of Inl err \<Rightarrow> Inl err | Inr v \<Rightarrow> Inr (arsinh v))
      else py_div Mh (e - 1))"

text \<open>
  Lines 35 to 43: the loop body run at most \<open>n\<close> more times from the iterate \<open>H\<close>.
  The body computes \<open>s\<close>, \<open>c\<close>, \<open>f\<close>, \<open>fp\<close> and \<open>dH = -f / fp\<close>, adds \<open>dH\<close> to
  \<open>H\<close> and leaves the loop when \<open>abs(dH) < tol\<close>; when the loop runs out, the last
  \<open>H\<close> is returned. A zero \<open>fp\<close> is the error value: on Python floats the division
  raises \<open>ZeroDivisionError\<close>, and where \<open>H\<close> is a NumPy scalar (after \<open>np.arcsinh\<close>)
  it would give an infinity or a NaN, for which the real numbers have no value.
\<close>

fun newton_loop :: "real \<Rightarrow> real \<Rightarrow> real \<Rightarrow> nat \<Rightarrow> real \<Rightarrow> error + real" where
  "newton_loop Mh e tol 0 H = Inr H"
| "newton_loop Mh e tol (Suc n) H =
     (let s = sinh H;
          c = cosh H;
          f = e * s - H - Mh;
          fp = e * c - 1
      in case py_div (- f) fp of
           Inl err \<Rightarrow> Inl err
         | Inr dH \<Rightarrow>
             (let H' = H + dH
              in if \<bar>dH\<bar> < tol then Inr H' else newton_loop Mh e tol n H'))"

text \<open>
  \<open>solve_H(Mh, e, tol, maxit)\<close>. \<open>range(maxit)\<close> is empty for \<open>maxit \<le> 0\<close>, which
  \<^const>\<open>nat\<close> gives.
\<close>

definition solve_H :: "real \<Rightarrow> real \<Rightarrow> real \<Rightarrow> int \<Rightarrow> error + real" where
  "solve_H Mh e tol maxit =
     (case initial_guess Mh e of
        Inl err \<Rightarrow> Inl err
      | Inr H0 \<Rightarrow> newton_loop Mh e tol (nat maxit) H0)"

text \<open>The defaults of the signature: \<open>tol = 1e-12\<close>, \<open>maxit = 100\<close>.\<close>

definition default_tol :: real where
  "default_tol = 1 / 10 ^ 12"

definition default_maxit :: int where
  "default_maxit = 100"

definition solve_H_default :: "real \<Rightarrow> real \<Rightarrow> error + real" where
  "solve_H_default Mh e = solve_H Mh e default_tol default_maxit"

subsection \<open>The equation being solved, in the specification's words\<close>

text \<open>\<open>f(H) = e sinh(H) - H - Mh\<close> and \<open>f'(H) = e cosh(H) - 1\<close>.\<close>

definition kepler_f :: "real \<Rightarrow> real \<Rightarrow> real \<Rightarrow> real" where
  "kepler_f Mh e H = e * sinh H - H - Mh"

definition kepler_fp :: "real \<Rightarrow> real \<Rightarrow> real" where
  "kepler_fp e H = e * cosh H - 1"

text \<open>One Newton update \<open>H \<leftarrow> H - f(H) / f'(H)\<close> and its \<open>k\<close>-fold iteration.\<close>

definition newton_update :: "real \<Rightarrow> real \<Rightarrow> real \<Rightarrow> real" where
  "newton_update Mh e H = H - kepler_f Mh e H / kepler_fp e H"

fun newton_iterate :: "real \<Rightarrow> real \<Rightarrow> nat \<Rightarrow> real \<Rightarrow> real" where
  "newton_iterate Mh e 0 H = H"
| "newton_iterate Mh e (Suc k) H = newton_iterate Mh e k (newton_update Mh e H)"

subsection \<open>The propagation of \<open>main\<close>\<close>






text \<open>
  The constants of \<open>main\<close>, lines 58 to 63: \<open>k_gauss\<close>, and \<open>mu\<close>, \<open>q\<close> and \<open>a\<close> under
  the names \<open>mu_sun\<close>, \<open>q_nominal\<close> and \<open>a_nominal\<close>.
\<close>

definition k_gauss :: real where
  "k_gauss = 1720209895 / 10 ^ 11"

definition mu_sun :: real where
  "mu_sun = k_gauss ^ 2"

definition q_nominal :: real where
  "q_nominal = 13565 / 10 ^ 4"

definition a_nominal :: real where
  "a_nominal = - (26549 / 10 ^ 5)"

text \<open>
  What the propagation computes from the elements: the eccentricity of line 64 and the
  time scale of line 73.
\<close>

definition eccentricity :: "real \<Rightarrow> real \<Rightarrow> real" where
  "eccentricity q a = 1 + q / \<bar>a\<bar>"

definition tau_scale :: "real \<Rightarrow> real \<Rightarrow> real" where
  "tau_scale a mu = sqrt (\<bar>a\<bar> ^ 3 / mu)"

section \<open>Facts about sinh and cosh\<close>

lemma sinh_diff_ge:
  fixes x y :: real
  assumes "y \<le> x"
  shows "x - y \<le> sinh x - sinh y"
proof -
  have "(\<lambda>t. sinh t - t) y \<le> (\<lambda>t. sinh t - t) x"
  proof (rule DERIV_nonneg_imp_nondecreasing [OF assms])
    fix t :: real
    have "((\<lambda>t. sinh t - t) has_real_derivative cosh t - 1) (at t)"
      by (auto intro!: derivative_eq_intros)
    moreover have "0 \<le> cosh t - 1" using cosh_real_ge_1 [of t] by simp
    ultimately show "\<exists>d. ((\<lambda>t. sinh t - t) has_real_derivative d) (at t) \<and> 0 \<le> d"
      by blast
  qed
  then show ?thesis by simp
qed

lemma sinh_ge_self:
  fixes x :: real
  assumes "0 \<le> x"
  shows "x \<le> sinh x"
  using sinh_diff_ge [OF assms] by simp

lemma sinh_le_mult_cosh:
  fixes x :: real
  assumes "0 \<le> x"
  shows "sinh x \<le> x * cosh x"
proof -
  have "(\<lambda>t. t * cosh t - sinh t) 0 \<le> (\<lambda>t. t * cosh t - sinh t) x"
  proof (rule DERIV_nonneg_imp_nondecreasing [OF assms])
    fix t :: real
    assume t: "0 \<le> t"
    have "((\<lambda>t. t * cosh t - sinh t) has_real_derivative t * sinh t) (at t)"
      by (auto intro!: derivative_eq_intros)
    moreover have "0 \<le> t * sinh t" using t by simp
    ultimately show "\<exists>d. ((\<lambda>t. t * cosh t - sinh t) has_real_derivative d) (at t) \<and> 0 \<le> d"
      by blast
  qed
  then show ?thesis by simp
qed

lemma cosh_minus_one_le:
  fixes x :: real
  assumes "0 \<le> x"
  shows "cosh x - 1 \<le> x * sinh x"
proof -
  have "(\<lambda>t. t * sinh t - cosh t) 0 \<le> (\<lambda>t. t * sinh t - cosh t) x"
  proof (rule DERIV_nonneg_imp_nondecreasing [OF assms])
    fix t :: real
    assume t: "0 \<le> t"
    have "((\<lambda>t. t * sinh t - cosh t) has_real_derivative t * cosh t) (at t)"
      by (auto intro!: derivative_eq_intros)
    moreover have "0 \<le> t * cosh t" using t by simp
    ultimately show "\<exists>d. ((\<lambda>t. t * sinh t - cosh t) has_real_derivative d) (at t) \<and> 0 \<le> d"
      by blast
  qed
  then show ?thesis by simp
qed

text \<open>\<open>sinh\<close> lies above its tangents on the non-negative reals.\<close>

lemma sinh_tangent_le:
  fixes x y :: real
  assumes "0 \<le> x" "0 \<le> y"
  shows "sinh x + cosh x * (y - x) \<le> sinh y"
proof -
  let ?g = "\<lambda>t. sinh t - cosh x * t"
  have deriv: "(?g has_real_derivative cosh t - cosh x) (at t)" for t
    by (auto intro!: derivative_eq_intros)
  have "?g x \<le> ?g y"
  proof (cases "x \<le> y")
    case True
    show ?thesis
    proof (rule DERIV_nonneg_imp_nondecreasing [OF True])
      fix t assume "x \<le> t"
      with assms(1) have "cosh x \<le> cosh t"
        by (simp add: cosh_real_nonneg_le_iff)
      with deriv [of t] show "\<exists>d. (?g has_real_derivative d) (at t) \<and> 0 \<le> d"
        by (intro exI [of _ "cosh t - cosh x"]) simp
    qed
  next
    case False
    then have yx: "y \<le> x" by simp
    show ?thesis
    proof (rule DERIV_nonpos_imp_nonincreasing [OF yx])
      fix t assume "y \<le> t" "t \<le> x"
      with assms(2) have "cosh t \<le> cosh x"
        by (simp add: cosh_real_nonneg_le_iff)
      with deriv [of t] show "\<exists>d. (?g has_real_derivative d) (at t) \<and> d \<le> 0"
        by (intro exI [of _ "cosh t - cosh x"]) simp
    qed
  qed
  then show ?thesis by (simp add: algebra_simps)
qed

lemma cosh_1_le_2: "cosh (1::real) \<le> 2"
proof -
  have a: "exp (1::real) \<le> 3" by (rule exp_le)
  have b: "exp (- 1 :: real) \<le> 1" by simp
  have "(u + v) / 2 \<le> 2" if "u \<le> 3" "v \<le> 1" for u v :: real
    using that by argo
  from this [OF a b] show ?thesis unfolding cosh_field_def .
qed

lemma cosh_le_2:
  fixes x :: real
  assumes "0 \<le> x" "x \<le> 1"
  shows "cosh x \<le> 2"
proof -
  have "cosh x \<le> cosh 1" using assms by (simp add: cosh_real_nonneg_le_iff)
  with cosh_1_le_2 show ?thesis by simp
qed

lemma sinh_ge_quadratic:
  fixes x :: real
  assumes "0 \<le> x"
  shows "x / 2 + x\<^sup>2 / 4 \<le> sinh x"
proof -
  have a: "1 + x + x\<^sup>2 / 2 \<le> exp x" by (rule exp_lower_Taylor_quadratic [OF assms])
  have b: "exp (- x) \<le> 1" using assms by simp
  have "x / 2 + w / 4 \<le> (u - v) / 2" if "1 + x + w / 2 \<le> u" "v \<le> 1" for u v w :: real
    using that by argo
  from this [OF a b] show ?thesis unfolding sinh_field_def .
qed

lemma pow_bound: "(2 / 3 :: real) ^ 100 * 2 < 1 / 10 ^ 9"
  by (simp add: power_divide)

text \<open>\<open>cosh\<close> lies above its tangents.\<close>

lemma cosh_tangent_le:
  fixes x y :: real
  shows "cosh x + sinh x * (y - x) \<le> cosh y"
proof -
  let ?g = "\<lambda>t. cosh t - sinh x * t"
  have deriv: "(?g has_real_derivative sinh t - sinh x) (at t)" for t
    by (auto intro!: derivative_eq_intros)
  have "?g x \<le> ?g y"
  proof (cases "x \<le> y")
    case True
    show ?thesis
    proof (rule DERIV_nonneg_imp_nondecreasing [OF True])
      fix t assume "x \<le> t"
      then have "sinh x \<le> sinh t" by simp
      with deriv [of t] show "\<exists>d. (?g has_real_derivative d) (at t) \<and> 0 \<le> d"
        by (intro exI [of _ "sinh t - sinh x"]) simp
    qed
  next
    case False
    then have yx: "y \<le> x" by simp
    show ?thesis
    proof (rule DERIV_nonpos_imp_nonincreasing [OF yx])
      fix t assume "t \<le> x"
      then have "sinh t \<le> sinh x" by simp
      with deriv [of t] show "\<exists>d. (?g has_real_derivative d) (at t) \<and> d \<le> 0"
        by (intro exI [of _ "sinh t - sinh x"]) simp
    qed
  qed
  then show ?thesis by (simp add: algebra_simps)
qed

text \<open>The distance of \<open>sinh\<close> from its tangent is at most quadratic.\<close>

lemma sinh_remainder_le:
  fixes x y :: real
  assumes "0 \<le> x" "0 \<le> y"
  shows "sinh y - sinh x - cosh x * (y - x) \<le> sinh (max x y) * (y - x)\<^sup>2"
proof (cases "x \<le> y")
  case True
  define u where "u = y - x"
  have u: "0 \<le> u" using True by (simp add: u_def)
  have "sinh y + cosh y * (x - y) \<le> sinh x" by (rule sinh_tangent_le [OF assms(2,1)])
  then have a: "sinh y - sinh x \<le> cosh y * u" by (simp add: u_def algebra_simps)
  have "cosh y + sinh y * (x - y) \<le> cosh x" by (rule cosh_tangent_le)
  then have "cosh y - cosh x \<le> sinh y * u" by (simp add: u_def algebra_simps)
  then have "(cosh y - cosh x) * u \<le> (sinh y * u) * u" using u by (rule mult_right_mono)
  then have b: "cosh y * u - cosh x * u \<le> sinh y * u\<^sup>2"
    by (simp add: algebra_simps power2_eq_square)
  from a b have "sinh y - sinh x - cosh x * u \<le> sinh y * u\<^sup>2" by linarith
  with True show ?thesis by (simp add: u_def max_def)
next
  case False
  define u where "u = x - y"
  have u: "0 \<le> u" using False by (simp add: u_def)
  have "sinh y + cosh y * (x - y) \<le> sinh x" by (rule sinh_tangent_le [OF assms(2,1)])
  then have a: "sinh y - sinh x \<le> - (cosh y * u)" by (simp add: u_def algebra_simps)
  have "cosh x + sinh x * (y - x) \<le> cosh y" by (rule cosh_tangent_le)
  then have "cosh x - cosh y \<le> sinh x * u" by (simp add: u_def algebra_simps)
  then have "(cosh x - cosh y) * u \<le> (sinh x * u) * u" using u by (rule mult_right_mono)
  then have b: "cosh x * u - cosh y * u \<le> sinh x * u\<^sup>2"
    by (simp add: algebra_simps power2_eq_square)
  from a b have "sinh y - sinh x + cosh x * u \<le> sinh x * u\<^sup>2" by linarith
  moreover have "cosh x * (y - x) = - (cosh x * u)" by (simp add: u_def algebra_simps)
  moreover have "(y - x)\<^sup>2 = u\<^sup>2" by (simp add: u_def power2_commute)
  ultimately show ?thesis using False by (simp add: max_def)
qed

lemma sinh_le_cosh_scaled:
  fixes x :: real
  assumes "0 \<le> x"
  shows "sinh x \<le> 6 / 5 * (cosh x - 1 / 2)"
proof (rule power2_le_imp_le)
  define c where "c = cosh x"
  have c1: "1 \<le> c" unfolding c_def by (rule cosh_real_ge_1)
  then show "0 \<le> 6 / 5 * (cosh x - 1 / 2)" by (simp add: c_def)
  have "0 \<le> (11 * c - 18)\<^sup>2" by simp
  then have "0 \<le> 121 * c\<^sup>2 - 396 * c + 324" by (simp add: power2_eq_square algebra_simps)
  then have "25 * (c\<^sup>2 - 1) \<le> 36 * c\<^sup>2 - 36 * c + 9" by argo
  moreover have "(6 / 5 * (c - 1 / 2))\<^sup>2 = (36 * c\<^sup>2 - 36 * c + 9) / 25"
    by (simp add: power2_eq_square algebra_simps)
  ultimately have "c\<^sup>2 - 1 \<le> (6 / 5 * (c - 1 / 2))\<^sup>2" by simp
  then show "(sinh x)\<^sup>2 \<le> (6 / 5 * (cosh x - 1 / 2))\<^sup>2"
    by (simp add: sinh_square_eq c_def)
qed

lemma cosh_ge_quadratic:
  fixes x :: real
  assumes "0 \<le> x"
  shows "1 + x\<^sup>2 / 2 \<le> cosh x"
proof -
  have "(\<lambda>t. cosh t - t\<^sup>2 / 2) 0 \<le> (\<lambda>t. cosh t - t\<^sup>2 / 2) x"
  proof (rule DERIV_nonneg_imp_nondecreasing [OF assms])
    fix t :: real
    assume t: "0 \<le> t"
    have "((\<lambda>t. cosh t - t\<^sup>2 / 2) has_real_derivative sinh t - t) (at t)"
      by (auto intro!: derivative_eq_intros)
    moreover have "0 \<le> sinh t - t" using sinh_ge_self [OF t] by simp
    ultimately show "\<exists>d. ((\<lambda>t. cosh t - t\<^sup>2 / 2) has_real_derivative d) (at t) \<and> 0 \<le> d"
      by blast
  qed
  then show ?thesis by simp
qed

lemma self_le_cosh:
  fixes x :: real
  assumes "0 \<le> x"
  shows "x \<le> cosh x - 1 / 2"
proof -
  have "0 \<le> (x - 1)\<^sup>2" by simp
  then have "2 * x \<le> x\<^sup>2 + 1" by (simp add: power2_eq_square algebra_simps)
  with cosh_ge_quadratic [OF assms] show ?thesis by linarith
qed

lemma pow_bound_3_5: "(3 / 5 :: real) ^ 99 * 1000 < 1 / 10 ^ 9"
  by (simp add: power_divide)

section \<open>Properties of the solver\<close>

lemma kepler_fp_pos: "1 < e \<Longrightarrow> 0 < kepler_fp e H"
proof -
  assume e: "1 < e"
  have c: "1 \<le> cosh H" by (rule cosh_real_ge_1)
  have "e * 1 \<le> e * cosh H" using e c by (intro mult_left_mono) simp_all
  then have "e \<le> e * cosh H" by simp
  with e show ?thesis unfolding kepler_fp_def by linarith
qed

lemma newton_loop_step:
  assumes "1 < e"
  shows "newton_loop Mh e tol (Suc n) H =
           (if \<bar>newton_update Mh e H - H\<bar> < tol then Inr (newton_update Mh e H)
            else newton_loop Mh e tol n (newton_update Mh e H))"
proof -
  define f where "f = e * sinh H - H - Mh"
  define fp where "fp = e * cosh H - 1"
  have fp: "fp \<noteq> 0"
    using kepler_fp_pos [OF assms, of H] by (simp add: kepler_fp_def fp_def)
  have upd: "newton_update Mh e H = H + - f / fp"
    unfolding newton_update_def kepler_f_def kepler_fp_def f_def fp_def
    by (simp only: diff_conv_add_uminus minus_divide_left)
  have d: "H + - f / fp - H = - f / fp"
    by simp
  have "newton_loop Mh e tol (Suc n) H =
          (case py_div (- f) fp of
             Inl err \<Rightarrow> Inl err
           | Inr dH \<Rightarrow> if \<bar>dH\<bar> < tol then Inr (H + dH) else newton_loop Mh e tol n (H + dH))"
    unfolding f_def fp_def by (simp only: newton_loop.simps Let_def)
  also have "\<dots> = (if \<bar>- f / fp\<bar> < tol then Inr (H + - f / fp)
                    else newton_loop Mh e tol n (H + - f / fp))"
    using fp by (simp only: py_div_def if_False sum.case)
  finally show ?thesis by (simp only: upd d)
qed

declare newton_loop.simps(2) [simp del]

lemma initial_guess_value:
  assumes "1 < e"
  shows "initial_guess Mh e = Inr (if \<bar>Mh\<bar> > 1 then arsinh (Mh / e) else Mh / (e - 1))"
  using assms by (simp add: initial_guess_def py_div_def)

lemma newton_loop_trace:
  assumes "1 < e"
  shows "\<exists>k\<le>n. newton_loop Mh e tol n H = Inr (newton_iterate Mh e k H)
           \<and> (\<forall>j. Suc j < k \<longrightarrow>
                 tol \<le> \<bar>newton_iterate Mh e (Suc j) H - newton_iterate Mh e j H\<bar>)
           \<and> (k < n \<longrightarrow> 0 < k
                 \<and> \<bar>newton_iterate Mh e k H - newton_iterate Mh e (k - 1) H\<bar> < tol)"
proof (induction n arbitrary: H)
  case 0
  show ?case by simp
next
  case (Suc n)
  let ?H' = "newton_update Mh e H"
  show ?case
  proof (cases "\<bar>?H' - H\<bar> < tol")
    case True
    then have "newton_loop Mh e tol (Suc n) H = Inr (newton_iterate Mh e 1 H)"
      by (simp add: newton_loop_step [OF assms])
    with True show ?thesis
      by (intro exI [of _ 1]) simp
  next
    case False
    from Suc.IH [of ?H'] obtain k where k: "k \<le> n"
      "newton_loop Mh e tol n ?H' = Inr (newton_iterate Mh e k ?H')"
      "\<forall>j. Suc j < k \<longrightarrow>
         tol \<le> \<bar>newton_iterate Mh e (Suc j) ?H' - newton_iterate Mh e j ?H'\<bar>"
      "k < n \<longrightarrow> 0 < k
         \<and> \<bar>newton_iterate Mh e k ?H' - newton_iterate Mh e (k - 1) ?H'\<bar> < tol"
      by blast
    have a: "newton_loop Mh e tol (Suc n) H = Inr (newton_iterate Mh e (Suc k) H)"
      using False k(2) by (simp add: newton_loop_step [OF assms])
    have b: "tol \<le> \<bar>newton_iterate Mh e (Suc j) H - newton_iterate Mh e j H\<bar>"
      if "Suc j < Suc k" for j
    proof (cases j)
      case 0
      with False show ?thesis by simp
    next
      case (Suc i)
      with that k(3) show ?thesis by simp
    qed
    have c: "0 < Suc k
         \<and> \<bar>newton_iterate Mh e (Suc k) H - newton_iterate Mh e (Suc k - 1) H\<bar> < tol"
      if "Suc k < Suc n"
    proof -
      from that k(4) have "0 < k" and
        d: "\<bar>newton_iterate Mh e k ?H' - newton_iterate Mh e (k - 1) ?H'\<bar> < tol"
        by simp_all
      then obtain i where "k = Suc i" by (cases k) simp_all
      with d show ?thesis by simp
    qed
    from k(1) a b c show ?thesis
      by (intro exI [of _ "Suc k"]) blast
  qed
qed

lemma newton_update_zero: "1 < e \<Longrightarrow> newton_update 0 e 0 = 0"
  by (simp add: newton_update_def kepler_f_def)

lemma newton_loop_zero: "1 < e \<Longrightarrow> newton_loop 0 e tol n 0 = Inr 0"
  by (induction n) (simp_all add: newton_loop_step newton_update_zero)


lemma kepler_f_odd: "kepler_f (- Mh) e (- H) = - kepler_f Mh e H"
  by (simp add: kepler_f_def)

lemma kepler_fp_even: "kepler_fp e (- H) = kepler_fp e H"
  by (simp add: kepler_fp_def)

lemma newton_update_odd: "newton_update (- Mh) e (- H) = - newton_update Mh e H"
  by (simp add: newton_update_def kepler_f_odd kepler_fp_even)

lemma newton_loop_odd:
  assumes "1 < e"
  shows "\<exists>R. newton_loop Mh e tol n H = Inr R \<and> newton_loop (- Mh) e tol n (- H) = Inr (- R)"
proof (induction n arbitrary: H)
  case 0
  show ?case by simp
next
  case (Suc n)
  have "\<bar>newton_update (- Mh) e (- H) - (- H)\<bar> = \<bar>newton_update Mh e H - H\<bar>"
    by (simp add: newton_update_odd)
  with Suc [of "newton_update Mh e H"] show ?case
    by (simp add: newton_loop_step [OF assms] newton_update_odd)
qed

lemma initial_guess_odd:
  assumes "1 < e"
  shows "\<exists>H0. initial_guess Mh e = Inr H0 \<and> initial_guess (- Mh) e = Inr (- H0)"
  using assms by (simp add: initial_guess_value)

subsection \<open>The iteration to the right of the root\<close>

lemma newton_update_gap:
  assumes "1 < e"
  shows "kepler_f Mh e H = kepler_fp e H * (H - newton_update Mh e H)"
  using kepler_fp_pos [OF assms, of H] by (simp add: newton_update_def)

text \<open>
  After a Newton update that lands on the non-negative side the residual is not
  negative.
\<close>

lemma newton_update_residual_nonneg:
  assumes e: "1 < e" and H: "0 \<le> H" and H': "0 \<le> newton_update Mh e H"
  shows "0 \<le> kepler_f Mh e (newton_update Mh e H)"
proof -
  let ?H' = "newton_update Mh e H"
  have gap: "kepler_f Mh e H = kepler_fp e H * (H - ?H')" by (rule newton_update_gap [OF e])
  have "e * (sinh H + cosh H * (?H' - H)) \<le> e * sinh ?H'"
    using e sinh_tangent_le [OF H H'] by (intro mult_left_mono) simp_all
  moreover have "e * (sinh H + cosh H * (?H' - H)) - ?H' - Mh
                   = kepler_f Mh e H - kepler_fp e H * (H - ?H')"
    by (simp add: kepler_f_def kepler_fp_def algebra_simps)
  ultimately show ?thesis using gap by (simp add: kepler_f_def)
qed

lemma newton_step_monotone:
  assumes e: "1 < e" and Mh: "0 \<le> Mh" and H: "0 \<le> H" and f: "0 \<le> kepler_f Mh e H"
  shows "newton_update Mh e H \<le> H"
    and "0 \<le> newton_update Mh e H"
    and "0 \<le> kepler_f Mh e (newton_update Mh e H)"
    and "kepler_f Mh e (newton_update Mh e H)
           \<le> kepler_f Mh e H - (e - 1) * (H - newton_update Mh e H)"
proof -
  let ?H' = "newton_update Mh e H"
  let ?d = "H - ?H'"
  have fp: "0 < kepler_fp e H" by (rule kepler_fp_pos [OF e])
  have gap: "kepler_f Mh e H = kepler_fp e H * ?d" by (rule newton_update_gap [OF e])
  have d: "?d = kepler_f Mh e H / kepler_fp e H" by (simp add: newton_update_def)
  have d0: "0 \<le> ?d" unfolding d using f fp by simp
  then show le: "?H' \<le> H" by simp
  have "e * sinh H \<le> e * (H * cosh H)"
    using e sinh_le_mult_cosh [OF H] by (intro mult_left_mono) simp_all
  then have "kepler_f Mh e H \<le> H * kepler_fp e H"
    using Mh by (simp add: kepler_f_def kepler_fp_def algebra_simps)
  then have "?d \<le> H" unfolding d using fp by (simp add: pos_divide_le_eq)
  then show nonneg: "0 \<le> ?H'" by simp
  show "0 \<le> kepler_f Mh e ?H'"
    by (rule newton_update_residual_nonneg [OF e H nonneg])
  have "e * ?d \<le> e * (sinh H - sinh ?H')"
    using e sinh_diff_ge [OF le] by (intro mult_left_mono) simp_all
  then show "kepler_f Mh e ?H' \<le> kepler_f Mh e H - (e - 1) * ?d"
    by (simp add: kepler_f_def algebra_simps)
qed




text \<open>Two bounds on the next residual for \<open>e \<ge> 2\<close> and \<open>0 \<le> H \<le> 1 / (e - 1)\<close>.\<close>

lemma newton_step_contract:
  assumes e: "2 \<le> e" and Mh: "0 \<le> Mh" and H: "0 \<le> H" "H \<le> 1 / (e - 1)"
    and f: "0 \<le> kepler_f Mh e H"
  shows "kepler_f Mh e (newton_update Mh e H) \<le> 2 / 3 * kepler_f Mh e H"
    and "kepler_f Mh e (newton_update Mh e H) \<le> 4 * (H - newton_update Mh e H)"
proof -
  define d where "d = H - newton_update Mh e H"
  define F where "F = kepler_f Mh e H"
  define F' where "F' = kepler_f Mh e (newton_update Mh e H)"
  define P where "P = kepler_fp e H"
  define w where "w = (e - 1) * d"
  have e1: "1 < e" using e by simp
  have gap: "F = P * d"
    unfolding F_def P_def d_def by (rule newton_update_gap [OF e1])
  have d0: "0 \<le> d"
    unfolding d_def using newton_step_monotone(1) [OF e1 Mh H(1) f] by simp
  have step: "F' \<le> F - w"
    unfolding F'_def F_def w_def d_def by (rule newton_step_monotone(4) [OF e1 Mh H(1) f])
  have "1 / (e - 1) \<le> 1" using e by (simp add: field_simps)
  with H(2) have H1: "H \<le> 1" by simp
  have c2: "cosh H \<le> 2" by (rule cosh_le_2 [OF H(1) H1])
  have "e * cosh H \<le> e * 2" using e c2 by (intro mult_left_mono) simp_all
  moreover have "u - 1 \<le> 3 * (e - 1)" if "u \<le> e * 2" for u
    using that e by argo
  ultimately have P3: "P \<le> 3 * (e - 1)" unfolding P_def kepler_fp_def by blast
  have "P * d \<le> (3 * (e - 1)) * d" using P3 d0 by (rule mult_right_mono)
  also have "\<dots> = 3 * w" unfolding w_def by (simp only: mult.assoc)
  finally have "F \<le> 3 * w" unfolding gap .
  with step have "F' \<le> 2 / 3 * F" by argo
  then show "kepler_f Mh e (newton_update Mh e H) \<le> 2 / 3 * kepler_f Mh e H"
    unfolding F'_def F_def .
  have "cosh H - 1 \<le> H * sinh H" by (rule cosh_minus_one_le [OF H(1)])
  also have "\<dots> \<le> H * (H * cosh H)"
    using H(1) sinh_le_mult_cosh [OF H(1)] by (intro mult_left_mono)
  also have "\<dots> \<le> H * (H * 2)"
    using H(1) c2 by (intro mult_left_mono) simp_all
  finally have ch: "cosh H - 1 \<le> 2 * H\<^sup>2" by (simp add: power2_eq_square)
  have "H\<^sup>2 \<le> (1 / (e - 1))\<^sup>2" using H by (intro power_mono)
  then have H2: "H\<^sup>2 \<le> 1 / (e - 1)\<^sup>2" by (simp add: power_divide)
  have "0 \<le> (2 * e - 1) * (e - 2)" using e by simp
  then have "e \<le> 2 * (e - 1)\<^sup>2" by (simp add: power2_eq_square algebra_simps)
  moreover have "0 < (e - 1)\<^sup>2" using e by simp
  ultimately have q2: "e / (e - 1)\<^sup>2 \<le> 2" by (simp add: pos_divide_le_eq)
  have "e * (cosh H - 1) \<le> e * (2 * H\<^sup>2)"
    using e ch by (intro mult_left_mono) simp_all
  also have "\<dots> \<le> e * (2 * (1 / (e - 1)\<^sup>2))"
    using e H2 by (intro mult_left_mono) simp_all
  also have "\<dots> = 2 * (e / (e - 1)\<^sup>2)" by simp
  also have "\<dots> \<le> 4" using q2 by simp
  finally have "e * (cosh H - 1) \<le> 4" .
  moreover have "P - (e - 1) = e * (cosh H - 1)"
    unfolding P_def kepler_fp_def by (simp add: algebra_simps)
  ultimately have "P - (e - 1) \<le> 4" by simp
  then have "(P - (e - 1)) * d \<le> 4 * d" using d0 by (rule mult_right_mono)
  moreover have "(P - (e - 1)) * d = F - w"
    unfolding gap w_def by (simp only: left_diff_distrib)
  ultimately have "F - w \<le> 4 * d" by simp
  with step have "F' \<le> 4 * d" by simp
  then show "kepler_f Mh e (newton_update Mh e H) \<le> 4 * (H - newton_update Mh e H)"
    unfolding F'_def d_def .
qed

lemma newton_loop_contract:
  assumes e: "2 \<le> e" and Mh: "0 \<le> Mh"
  shows "0 \<le> H \<Longrightarrow> H \<le> 1 / (e - 1) \<Longrightarrow> 0 \<le> kepler_f Mh e H \<Longrightarrow>
         \<exists>R. newton_loop Mh e tol n H = Inr R \<and> 0 \<le> kepler_f Mh e R
           \<and> (kepler_f Mh e R \<le> (2 / 3) ^ n * kepler_f Mh e H \<or> kepler_f Mh e R < 4 * tol)"
proof (induction n arbitrary: H)
  case 0
  then show ?case by simp
next
  case (Suc n)
  let ?H' = "newton_update Mh e H"
  have e1: "1 < e" using e by simp
  note mono = newton_step_monotone [OF e1 Mh Suc.prems(1) Suc.prems(3)]
  note contr = newton_step_contract [OF e Mh Suc.prems]
  show ?case
  proof (cases "\<bar>?H' - H\<bar> < tol")
    case True
    with mono(1) have "4 * (H - ?H') < 4 * tol" by simp
    with contr(2) have "kepler_f Mh e ?H' < 4 * tol" by simp
    with True mono(3) show ?thesis by (simp add: newton_loop_step [OF e1])
  next
    case False
    have H': "?H' \<le> 1 / (e - 1)" using mono(1) Suc.prems(2) by simp
    from Suc.IH [OF mono(2) H' mono(3)] obtain R where
      R: "newton_loop Mh e tol n ?H' = Inr R" "0 \<le> kepler_f Mh e R"
        "kepler_f Mh e R \<le> (2 / 3) ^ n * kepler_f Mh e ?H' \<or> kepler_f Mh e R < 4 * tol"
      by blast
    have "(2 / 3) ^ n * kepler_f Mh e ?H' \<le> (2 / 3) ^ n * (2 / 3 * kepler_f Mh e H)"
      using contr(1) by (intro mult_left_mono) simp_all
    then have "(2 / 3) ^ n * kepler_f Mh e ?H' \<le> (2 / 3) ^ Suc n * kepler_f Mh e H"
      by simp
    with R(3) have "kepler_f Mh e R \<le> (2 / 3) ^ Suc n * kepler_f Mh e H
                      \<or> kepler_f Mh e R < 4 * tol"
      by linarith
    with False R(1,2) show ?thesis by (simp add: newton_loop_step [OF e1])
  qed
qed

text \<open>The starting value \<open>Mh / (e - 1)\<close> is to the right of the root.\<close>

lemma small_guess_residual:
  assumes e: "2 \<le> e" and Mh: "0 \<le> Mh" "Mh \<le> 1"
  shows "0 \<le> Mh / (e - 1)" "Mh / (e - 1) \<le> 1 / (e - 1)"
    and "0 \<le> kepler_f Mh e (Mh / (e - 1))"
    and "kepler_f Mh e (Mh / (e - 1)) \<le> 2"
proof -
  define h where "h = Mh / (e - 1)"
  have e1: "0 < e - 1" using e by simp
  have H0: "0 \<le> h" using Mh(1) e1 by (simp add: h_def)
  have Hb: "h \<le> 1 / (e - 1)" using Mh(2) e1 by (simp add: h_def divide_right_mono)
  have "1 / (e - 1) \<le> 1" using e by (simp add: field_simps)
  with Hb have H1: "h \<le> 1" by simp
  have "(e - 1) * h = Mh" using e1 by (simp add: h_def)
  then have eq: "e * h - h = Mh" by (simp add: algebra_simps)
  have "e * h \<le> e * sinh h"
    using e sinh_ge_self [OF H0] by (intro mult_left_mono) simp_all
  then have lo: "0 \<le> kepler_f Mh e h"
    unfolding kepler_f_def using eq by linarith
  have "sinh h \<le> h * cosh h" by (rule sinh_le_mult_cosh [OF H0])
  also have "\<dots> \<le> h * 2"
    using H0 cosh_le_2 [OF H0 H1] by (intro mult_left_mono)
  finally have "e * sinh h \<le> e * (h * 2)"
    using e by (intro mult_left_mono) simp_all
  then have "e * sinh h \<le> 2 * (e * h)" by (simp add: mult_ac)
  then have hi: "kepler_f Mh e h \<le> 2"
    unfolding kepler_f_def using eq Mh(2) H1 by linarith
  from H0 Hb lo hi show "0 \<le> Mh / (e - 1)" "Mh / (e - 1) \<le> 1 / (e - 1)"
    "0 \<le> kepler_f Mh e (Mh / (e - 1))" "kepler_f Mh e (Mh / (e - 1)) \<le> 2"
    by (simp_all add: h_def)
qed

lemma solve_H_default_residual_nonneg:
  assumes e: "2 \<le> e" and Mh: "0 \<le> Mh" "Mh \<le> 1"
  shows "\<exists>R. solve_H_default Mh e = Inr R \<and> 0 \<le> kepler_f Mh e R
           \<and> kepler_f Mh e R < 1 / 10 ^ 9"
proof -
  let ?H = "Mh / (e - 1)"
  have e1: "1 < e" using e by simp
  note g = small_guess_residual [OF e Mh]
  from newton_loop_contract [OF e Mh(1) g(1,2,3), of default_tol 100] obtain R where
    R: "newton_loop Mh e default_tol 100 ?H = Inr R" "0 \<le> kepler_f Mh e R"
      "kepler_f Mh e R \<le> (2 / 3) ^ 100 * kepler_f Mh e ?H \<or> kepler_f Mh e R < 4 * default_tol"
    by blast
  have "(2 / 3) ^ 100 * kepler_f Mh e ?H \<le> (2 / 3 :: real) ^ 100 * 2"
    using g(4) by (intro mult_left_mono) simp_all
  also have "\<dots> < 1 / 10 ^ 9" by (rule pow_bound)
  finally have a: "(2 / 3) ^ 100 * kepler_f Mh e ?H < 1 / 10 ^ 9" .
  have b: "4 * default_tol < 1 / 10 ^ 9" by (simp add: default_tol_def)
  from R(3) a b have "kepler_f Mh e R < 1 / 10 ^ 9" by linarith
  moreover have "solve_H_default Mh e = Inr R"
    using R(1) Mh e1
    by (simp add: solve_H_default_def solve_H_def initial_guess_value default_maxit_def)
  ultimately show ?thesis using R(2) by blast
qed

lemma solve_H_default_neg:
  assumes "1 < e" "solve_H_default Mh e = Inr R"
  shows "solve_H_default (- Mh) e = Inr (- R)"
proof -
  from initial_guess_odd [OF assms(1)] obtain H0 where
    g: "initial_guess Mh e = Inr H0" "initial_guess (- Mh) e = Inr (- H0)"
    by blast
  from newton_loop_odd [OF assms(1), of Mh default_tol "nat default_maxit" H0] g assms(2)
  show ?thesis by (simp add: solve_H_default_def solve_H_def)
qed





lemma kepler_f_strict_mono:
  assumes "1 < e" "x < y"
  shows "kepler_f Mh e x < kepler_f Mh e y"
proof -
  have "y - x \<le> sinh y - sinh x" using assms(2) by (intro sinh_diff_ge) simp
  moreover have "0 < y - x" using assms(2) by simp
  ultimately have "1 * (y - x) < e * (sinh y - sinh x)"
    using assms(1) by (intro mult_less_le_imp_less) simp_all
  then show ?thesis by (simp add: kepler_f_def algebra_simps)
qed

lemma newton_update_residual_eq:
  assumes "1 < e"
  shows "kepler_f Mh e (newton_update Mh e H)
           = e * (sinh (newton_update Mh e H) - sinh H - cosh H * (newton_update Mh e H - H))"
proof -
  define H' where "H' = newton_update Mh e H"
  have "kepler_f Mh e H = kepler_fp e H * (H - H')"
    unfolding H'_def by (rule newton_update_gap [OF assms])
  then have "e * sinh H - H - Mh = (e * cosh H - 1) * (H - H')"
    by (simp add: kepler_f_def kepler_fp_def)
  then have "e * sinh H' - H' - Mh = e * (sinh H' - sinh H - cosh H * (H' - H))"
    by (simp add: algebra_simps)
  then show ?thesis by (simp add: kepler_f_def H'_def)
qed

lemma newton_step_quadratic:
  assumes e: "1 < e" and H: "0 \<le> H" and H': "0 \<le> newton_update Mh e H"
  shows "kepler_f Mh e (newton_update Mh e H)
           \<le> e * sinh (max H (newton_update Mh e H)) * (newton_update Mh e H - H)\<^sup>2"
proof -
  have "e * (sinh (newton_update Mh e H) - sinh H - cosh H * (newton_update Mh e H - H))
          \<le> e * (sinh (max H (newton_update Mh e H)) * (newton_update Mh e H - H)\<^sup>2)"
    using e sinh_remainder_le [OF H H'] by (intro mult_left_mono) simp_all
  then show ?thesis by (simp add: newton_update_residual_eq [OF e] mult.assoc)
qed

lemma e_sinh_le_fp:
  assumes "2 \<le> e" "0 \<le> H"
  shows "e * sinh H \<le> 6 / 5 * kepler_fp e H"
proof -
  have "e * sinh H \<le> e * (6 / 5 * (cosh H - 1 / 2))"
    using assms(1) sinh_le_cosh_scaled [OF assms(2)] by (intro mult_left_mono) simp_all
  also have "\<dots> = 6 / 5 * (e * cosh H - e / 2)" by (simp add: field_simps)
  also have "\<dots> \<le> 6 / 5 * (e * cosh H - 1)" using assms(1) by simp
  finally show ?thesis by (simp add: kepler_fp_def)
qed

text \<open>
  The iteration inside a window \<open>[lo, hi]\<close> of width at most \<open>1/2\<close> whose left end is
  not to the right of the root: the residual shrinks by \<open>3/5\<close> at every update, and
  after an update \<open>dH\<close> it is at most \<open>K dH\<^sup>2\<close>.
\<close>

lemma newton_step_window:
  assumes e: "2 \<le> e" and Mh: "0 \<le> Mh" and lo: "0 \<le> lo" "kepler_f Mh e lo \<le> 0"
    and win: "hi - lo \<le> 1 / 2" and K: "e * sinh hi \<le> K"
    and H: "lo \<le> H" "H \<le> hi" and f: "0 \<le> kepler_f Mh e H"
  shows "lo \<le> newton_update Mh e H"
    and "newton_update Mh e H \<le> H"
    and "0 \<le> kepler_f Mh e (newton_update Mh e H)"
    and "kepler_f Mh e (newton_update Mh e H) \<le> 3 / 5 * kepler_f Mh e H"
    and "kepler_f Mh e (newton_update Mh e H) \<le> K * (H - newton_update Mh e H)\<^sup>2"
proof -
  define H' where "H' = newton_update Mh e H"
  define d where "d = H - H'"
  define F where "F = kepler_f Mh e H"
  define F' where "F' = kepler_f Mh e H'"
  define P where "P = kepler_fp e H"
  define S where "S = e * sinh H"
  have e1: "1 < e" using e by simp
  have H0: "0 \<le> H" using lo(1) H(1) by simp
  note mono = newton_step_monotone [OF e1 Mh H0 f]
  have le: "H' \<le> H" unfolding H'_def by (rule mono(1))
  have nn: "0 \<le> H'" unfolding H'_def by (rule mono(2))
  have F'0: "0 \<le> F'" unfolding F'_def H'_def by (rule mono(3))
  have lo': "lo \<le> H'"
  proof (rule ccontr)
    assume "\<not> lo \<le> H'"
    then have "H' < lo" by simp
    from kepler_f_strict_mono [OF e1 this, of Mh] lo(2) F'0 show False
      by (simp add: F'_def)
  qed
  have d0: "0 \<le> d" using le by (simp add: d_def)
  have d_half: "d \<le> 1 / 2" using lo' H(2) win by (simp add: d_def)
  have gap: "F = P * d"
    unfolding F_def P_def d_def H'_def by (rule newton_update_gap [OF e1])
  have "F' \<le> e * sinh (max H H') * (H' - H)\<^sup>2"
    unfolding F'_def H'_def using nn by (intro newton_step_quadratic [OF e1 H0]) (simp add: H'_def)
  moreover have "max H H' = H" using le by simp
  moreover have "(H' - H)\<^sup>2 = d\<^sup>2" by (simp add: d_def power2_commute)
  ultimately have quad: "F' \<le> S * d\<^sup>2" by (simp add: S_def)
  have S65: "S \<le> 6 / 5 * P" unfolding S_def P_def by (rule e_sinh_le_fp [OF e H0])
  have d2: "0 \<le> d\<^sup>2" by simp
  have "S * d\<^sup>2 \<le> (6 / 5 * P) * d\<^sup>2" using S65 d2 by (rule mult_right_mono)
  also have "\<dots> = 6 / 5 * (F * d)" by (simp add: gap power2_eq_square)
  also have "\<dots> \<le> 6 / 5 * (F * (1 / 2))"
    using f d_half by (intro mult_left_mono) (simp_all add: F_def)
  also have "\<dots> = 3 / 5 * F" by simp
  finally have "S * d\<^sup>2 \<le> 3 / 5 * F" .
  with quad have c: "F' \<le> 3 / 5 * F" by simp
  have "sinh H \<le> sinh hi" using H(2) by simp
  then have "e * sinh H \<le> e * sinh hi" using e by (intro mult_left_mono) simp_all
  with K have "S \<le> K" by (simp add: S_def)
  then have "S * d\<^sup>2 \<le> K * d\<^sup>2" using d2 by (rule mult_right_mono)
  with quad have k: "F' \<le> K * d\<^sup>2" by simp
  show "lo \<le> newton_update Mh e H" using lo' unfolding H'_def .
  show "newton_update Mh e H \<le> H" by (rule mono(1))
  show "0 \<le> kepler_f Mh e (newton_update Mh e H)" by (rule mono(3))
  show "kepler_f Mh e (newton_update Mh e H) \<le> 3 / 5 * kepler_f Mh e H"
    using c unfolding F'_def F_def H'_def .
  show "kepler_f Mh e (newton_update Mh e H) \<le> K * (H - newton_update Mh e H)\<^sup>2"
    using k unfolding F'_def d_def H'_def .
qed

lemma newton_loop_window:
  assumes e: "2 \<le> e" and Mh: "0 \<le> Mh" and lo: "0 \<le> lo" "kepler_f Mh e lo \<le> 0"
    and win: "hi - lo \<le> 1 / 2" and K: "e * sinh hi \<le> K" and tol: "0 \<le> tol"
  shows "lo \<le> H \<Longrightarrow> H \<le> hi \<Longrightarrow> 0 \<le> kepler_f Mh e H \<Longrightarrow>
         \<exists>R. newton_loop Mh e tol n H = Inr R \<and> 0 \<le> kepler_f Mh e R
           \<and> (kepler_f Mh e R \<le> (3 / 5) ^ n * kepler_f Mh e H
              \<or> kepler_f Mh e R \<le> K * tol\<^sup>2)"
proof (induction n arbitrary: H)
  case 0
  then show ?case by simp
next
  case (Suc n)
  let ?H' = "newton_update Mh e H"
  have e1: "1 < e" using e by simp
  note st = newton_step_window [OF e Mh lo win K Suc.prems]
  have K0: "0 \<le> K"
  proof -
    have "0 \<le> hi" using lo(1) Suc.prems(1,2) by simp
    then have "0 \<le> e * sinh hi" using e by simp
    with K show ?thesis by simp
  qed
  show ?case
  proof (cases "\<bar>?H' - H\<bar> < tol")
    case True
    with st(2) have "H - ?H' \<le> tol" "0 \<le> H - ?H'" by simp_all
    then have "(H - ?H')\<^sup>2 \<le> tol\<^sup>2" by (intro power_mono)
    then have "K * (H - ?H')\<^sup>2 \<le> K * tol\<^sup>2" using K0 by (rule mult_left_mono)
    with st(5) have "kepler_f Mh e ?H' \<le> K * tol\<^sup>2" by simp
    with True st(3) show ?thesis by (simp add: newton_loop_step [OF e1])
  next
    case False
    have H': "?H' \<le> hi" using st(2) Suc.prems(2) by simp
    from Suc.IH [OF st(1) H' st(3)] obtain R where
      R: "newton_loop Mh e tol n ?H' = Inr R" "0 \<le> kepler_f Mh e R"
        "kepler_f Mh e R \<le> (3 / 5) ^ n * kepler_f Mh e ?H' \<or> kepler_f Mh e R \<le> K * tol\<^sup>2"
      by blast
    have "(3 / 5) ^ n * kepler_f Mh e ?H' \<le> (3 / 5) ^ n * (3 / 5 * kepler_f Mh e H)"
      using st(4) by (intro mult_left_mono) simp_all
    then have "(3 / 5) ^ n * kepler_f Mh e ?H' \<le> (3 / 5) ^ Suc n * kepler_f Mh e H"
      by simp
    with R(3) have "kepler_f Mh e R \<le> (3 / 5) ^ Suc n * kepler_f Mh e H
                      \<or> kepler_f Mh e R \<le> K * tol\<^sup>2"
      by linarith
    with False R(1,2) show ?thesis by (simp add: newton_loop_step [OF e1])
  qed
qed

text \<open>
  The first update from the starting value \<open>h = asinh(Mh / e)\<close>, for \<open>e \<ge> 2\<close> and
  \<open>Mh \<ge> 1\<close>: the residual at \<open>h\<close> is \<open>-h\<close>, the update moves to the right by at most
  \<open>1/2\<close>, and \<open>e sinh\<close> at the new iterate is at most \<open>4 Mh\<close>.
\<close>

lemma arsinh_guess_window:
  assumes e: "2 \<le> e" and Mh: "1 \<le> Mh"
  defines "h \<equiv> arsinh (Mh / e)"
  shows "0 \<le> h"
    and "kepler_f Mh e h \<le> 0"
    and "0 \<le> newton_update Mh e h - h"
    and "newton_update Mh e h - h \<le> 1 / 2"
    and "e * sinh (newton_update Mh e h) \<le> 4 * Mh"
proof -
  define h' where "h' = newton_update Mh e h"
  define dl where "dl = h' - h"
  define P where "P = kepler_fp e h"
  have e1: "1 < e" using e by simp
  have y: "0 < Mh / e" using e Mh by simp
  have h0: "0 < h" unfolding h_def using y by simp
  have h00: "0 \<le> h" using h0 by simp
  have sh: "e * sinh h = Mh" unfolding h_def using e by simp
  have f: "kepler_f Mh e h = - h" unfolding kepler_f_def sh by simp
  have P0: "0 < P" unfolding P_def by (rule kepler_fp_pos [OF e1])
  have upd: "h' = h + h / P"
    unfolding h'_def P_def by (simp add: newton_update_def f)
  then have dl: "dl = h / P" by (simp add: dl_def)
  have dl0: "0 \<le> dl" unfolding dl using h0 P0 by simp
  have "2 * cosh h \<le> e * cosh h" using e by (intro mult_right_mono) simp_all
  moreover have "h \<le> cosh h - 1 / 2" by (rule self_le_cosh [OF h00])
  ultimately have "2 * h \<le> P" unfolding P_def kepler_fp_def by linarith
  then have "h \<le> 1 / 2 * P" by simp
  then have dl_half: "dl \<le> 1 / 2" unfolding dl using P0 by (simp add: pos_divide_le_eq)
  have "P * dl = h" unfolding dl using P0 by simp
  then have "e * cosh h * dl - dl = h" by (simp add: P_def kepler_fp_def algebra_simps)
  then have ecd: "e * cosh h * dl = h'" by (simp add: dl_def)
  have "h \<le> sinh h" by (rule sinh_ge_self [OF h00])
  also have "\<dots> = Mh / e" unfolding h_def by simp
  also have "\<dots> \<le> Mh / 2" using e Mh by (intro divide_left_mono) simp_all
  finally have "h \<le> Mh / 2" .
  with dl_half Mh have h'M: "h' \<le> Mh" by (simp add: dl_def)
  have dl1: "dl \<le> 1" using dl_half by simp
  have c2: "cosh dl \<le> 2" by (rule cosh_le_2 [OF dl0 dl1])
  have "sinh dl \<le> dl * cosh dl" by (rule sinh_le_mult_cosh [OF dl0])
  also have "\<dots> \<le> dl * 2" using dl0 c2 by (intro mult_left_mono)
  finally have s2: "sinh dl \<le> 2 * dl" by simp
  have "e * sinh h' = e * sinh (h + dl)" by (simp add: dl_def)
  also have "\<dots> = (e * sinh h) * cosh dl + (e * cosh h) * sinh dl"
    by (simp add: sinh_add algebra_simps)
  also have "\<dots> \<le> Mh * 2 + (e * cosh h) * (2 * dl)"
  proof (intro add_mono)
    show "e * sinh h * cosh dl \<le> Mh * 2"
      unfolding sh using Mh c2 by (intro mult_left_mono) simp_all
    show "e * cosh h * sinh dl \<le> e * cosh h * (2 * dl)"
      using e s2 by (intro mult_left_mono) simp_all
  qed
  also have "\<dots> = 2 * Mh + 2 * (e * cosh h * dl)" by simp
  also have "\<dots> = 2 * Mh + 2 * h'" unfolding ecd by simp
  also have "\<dots> \<le> 4 * Mh" using h'M by simp
  finally have K: "e * sinh h' \<le> 4 * Mh" .
  show "0 \<le> h" by (rule h00)
  show "kepler_f Mh e h \<le> 0" using f h00 by simp
  show "0 \<le> newton_update Mh e h - h" using dl0 unfolding dl_def h'_def .
  show "newton_update Mh e h - h \<le> 1 / 2" using dl_half unfolding dl_def h'_def .
  show "e * sinh (newton_update Mh e h) \<le> 4 * Mh" using K unfolding h'_def .
qed

lemma solve_H_default_residual_large:
  assumes e: "2 \<le> e" and Mh: "1 < Mh" "Mh \<le> 1000"
  shows "\<exists>R. solve_H_default Mh e = Inr R \<and> 0 \<le> kepler_f Mh e R
           \<and> kepler_f Mh e R < 1 / 10 ^ 9"
proof -
  define h where "h = arsinh (Mh / e)"
  define h' where "h' = newton_update Mh e h"
  have e1: "1 < e" using e by simp
  have Mh1: "1 \<le> Mh" and Mh0: "0 \<le> Mh" using Mh(1) by simp_all
  note w = arsinh_guess_window [OF e Mh1, folded h_def, folded h'_def]
  have h'0: "0 \<le> h'" using w(1,3) by simp
  have F0: "0 \<le> kepler_f Mh e h'"
    unfolding h'_def using h'0 by (intro newton_update_residual_nonneg [OF e1 w(1)]) (simp add: h'_def)
  have "kepler_f Mh e h' \<le> e * sinh (max h h') * (h' - h)\<^sup>2"
    unfolding h'_def using h'0 by (intro newton_step_quadratic [OF e1 w(1)]) (simp add: h'_def)
  moreover have "max h h' = h'" using w(3) by simp
  ultimately have quad: "kepler_f Mh e h' \<le> e * sinh h' * (h' - h)\<^sup>2" by simp
  have sq_half: "(h' - h)\<^sup>2 \<le> (1 / 2)\<^sup>2" using w(3,4) by (intro power_mono)
  have K0: "0 \<le> e * sinh h'" using e h'0 by simp
  have F_le: "kepler_f Mh e h' \<le> (4 * Mh) * (h' - h)\<^sup>2"
  proof -
    have "e * sinh h' * (h' - h)\<^sup>2 \<le> (4 * Mh) * (h' - h)\<^sup>2"
      using w(5) by (intro mult_right_mono) simp_all
    with quad show ?thesis by simp
  qed
  have F_Mh: "kepler_f Mh e h' \<le> 1000"
  proof -
    have "(4 * Mh) * (h' - h)\<^sup>2 \<le> (4 * Mh) * (1 / 2)\<^sup>2"
      using sq_half Mh0 by (intro mult_left_mono) simp_all
    also have "\<dots> = Mh" by (simp add: power2_eq_square)
    finally show ?thesis using F_le Mh(2) by simp
  qed
  have tol_bound: "(4 * Mh) * default_tol\<^sup>2 < 1 / 10 ^ 9"
  proof -
    have "(4 * Mh) * default_tol\<^sup>2 \<le> (4 * 1000) * default_tol\<^sup>2"
      using Mh(2) by (intro mult_right_mono) simp_all
    also have "\<dots> < 1 / 10 ^ 9" by (simp add: default_tol_def power2_eq_square)
    finally show ?thesis .
  qed
  have tol0: "0 \<le> default_tol" by (simp add: default_tol_def)
  have win: "h' - h \<le> 1 / 2" by (rule w(4))
  have lo: "h \<le> h'" using w(3) by simp
  from newton_loop_window [OF e Mh0 w(1,2) win w(5) tol0 lo order_refl F0, of 99] obtain R where
    R: "newton_loop Mh e default_tol 99 h' = Inr R" "0 \<le> kepler_f Mh e R"
      "kepler_f Mh e R \<le> (3 / 5) ^ 99 * kepler_f Mh e h'
       \<or> kepler_f Mh e R \<le> (4 * Mh) * default_tol\<^sup>2"
    by blast
  have "(3 / 5) ^ 99 * kepler_f Mh e h' \<le> (3 / 5 :: real) ^ 99 * 1000"
    using F_Mh by (intro mult_left_mono) simp_all
  also have "\<dots> < 1 / 10 ^ 9" by (rule pow_bound_3_5)
  finally have a: "(3 / 5) ^ 99 * kepler_f Mh e h' < 1 / 10 ^ 9" .
  from R(3) a tol_bound have R_small: "kepler_f Mh e R < 1 / 10 ^ 9" by linarith
  have first_small: "kepler_f Mh e h' < 1 / 10 ^ 9" if "\<bar>h' - h\<bar> < default_tol"
  proof -
    from that w(3) have "h' - h \<le> default_tol" by simp
    with w(3) have "(h' - h)\<^sup>2 \<le> default_tol\<^sup>2" by (intro power_mono)
    then have "(4 * Mh) * (h' - h)\<^sup>2 \<le> (4 * Mh) * default_tol\<^sup>2"
      using Mh0 by (intro mult_left_mono) simp_all
    with F_le tol_bound show ?thesis by linarith
  qed
  have "newton_loop Mh e default_tol (Suc 99) h =
          (if \<bar>h' - h\<bar> < default_tol then Inr h' else Inr R)"
    unfolding h'_def by (simp only: newton_loop_step [OF e1] R(1) [unfolded h'_def])
  moreover have "nat default_maxit = Suc 99" by (simp add: default_maxit_def)
  moreover have "initial_guess Mh e = Inr h"
    using Mh(1) by (simp add: initial_guess_value [OF e1] h_def)
  ultimately have s: "solve_H_default Mh e = Inr (if \<bar>h' - h\<bar> < default_tol then h' else R)"
    by (simp add: solve_H_default_def solve_H_def)
  show ?thesis
  proof (cases "\<bar>h' - h\<bar> < default_tol")
    case True
    with s F0 first_small show ?thesis by simp
  next
    case False
    with s R(2) R_small show ?thesis by simp
  qed
qed

subsection \<open>The iteration far from the root\<close>

text \<open>Far to the right of the root a Newton update moves by less than 1.\<close>

lemma newton_update_slow:
  assumes "1 < e" "1 \<le> Mh" "0 \<le> H"
  shows "H - 1 \<le> newton_update Mh e H"
proof -
  have fp: "0 < kepler_fp e H" by (rule kepler_fp_pos [OF assms(1)])
  have "e * sinh H \<le> e * cosh H"
    using assms(1) sinh_le_cosh_real [of H] by (intro mult_left_mono) simp_all
  then have "kepler_f Mh e H \<le> kepler_fp e H"
    unfolding kepler_f_def kepler_fp_def using assms(2,3) by linarith
  then have "kepler_f Mh e H / kepler_fp e H \<le> 1"
    using fp by (simp add: pos_divide_le_eq)
  then show ?thesis by (simp add: newton_update_def)
qed

lemma newton_loop_slow:
  assumes "1 < e" "1 \<le> Mh"
  shows "real n \<le> H \<Longrightarrow> \<exists>R. newton_loop Mh e tol n H = Inr R \<and> H - real n \<le> R"
proof (induction n arbitrary: H)
  case 0
  then show ?case by simp
next
  case (Suc n)
  let ?H' = "newton_update Mh e H"
  from Suc.prems have H: "0 \<le> H" by simp
  have slow: "H - 1 \<le> ?H'" by (rule newton_update_slow [OF assms H])
  with Suc.prems have "real n \<le> ?H'" by simp
  from Suc.IH [OF this] obtain R where
    R: "newton_loop Mh e tol n ?H' = Inr R" "?H' - real n \<le> R"
    by blast
  show ?case
  proof (cases "\<bar>?H' - H\<bar> < tol")
    case True
    with slow show ?thesis by (simp add: newton_loop_step [OF assms(1)])
  next
    case False
    with R slow show ?thesis by (simp add: newton_loop_step [OF assms(1)])
  qed
qed

lemma residual_large:
  fixes e R :: real
  assumes "1 < e" "4 \<le> R"
  shows "1 \<le> e * sinh R - R - 1"
proof -
  have R0: "0 \<le> R" using assms(2) by simp
  have q: "R / 2 + R\<^sup>2 / 4 \<le> sinh R" by (rule sinh_ge_quadratic [OF R0])
  have "4 * R \<le> R * R" using assms(2) R0 by (intro mult_right_mono) simp_all
  then have "4 * R \<le> R\<^sup>2" by (simp add: power2_eq_square)
  with q assms(2) have s: "R + 2 \<le> sinh R" by argo
  have "1 * sinh R \<le> e * sinh R"
    using assms(1) R0 by (intro mult_right_mono) simp_all
  with s show ?thesis by simp
qed

lemma solve_H_default_slow:
  "\<exists>R. solve_H_default 1 (501 / 500) = Inr R \<and> 400 \<le> R"
proof -
  have e: "(1::real) < 501 / 500" by simp
  from newton_loop_slow [OF e, of 1 100 500 default_tol] obtain R where
    R: "newton_loop 1 (501 / 500) default_tol 100 500 = Inr R" "400 \<le> R"
    by auto
  have "initial_guess 1 (501 / 500) = Inr 500"
    by (simp add: initial_guess_value)
  with R(1) have "solve_H_default 1 (501 / 500) = Inr R"
    by (simp add: solve_H_default_def solve_H_def default_maxit_def)
  with R(2) show ?thesis by blast
qed

section \<open>Properties of the propagation\<close>















section \<open>solve\_H against its specification\<close>

text \<open>
  C1, as the specification states it: for every \<open>Mh\<close> and every \<open>e > 1\<close> the value
  returned with the default \<open>tol\<close> and \<open>maxit\<close> has a residual below \<open>1e-9\<close>.
  This fails at \<open>Mh = 1\<close>, \<open>e = 1.002\<close>: the starting value is \<open>1 / 0.002 = 500\<close>,
  every update moves by less than 1, and after the 100 updates the iterate is at least
  400, with a residual of at least 1.
\<close>

theorem solve_H_residual_counterexample:
  "\<not> isl (solve_H_default 1 (501 / 500))
   \<and> \<not> \<bar>501 / 500 * sinh (projr (solve_H_default 1 (501 / 500)))
          - projr (solve_H_default 1 (501 / 500)) - 1\<bar> < 1 / 10 ^ 9"
proof -
  have e: "(1::real) < 501 / 500" by simp
  from solve_H_default_slow obtain R where
    s: "solve_H_default 1 (501 / 500) = Inr R" and R: "400 \<le> R"
    by blast
  from R have "4 \<le> R" by simp
  from residual_large [OF e this] have "1 \<le> 501 / 500 * sinh R - R - 1" .
  then have "\<not> \<bar>501 / 500 * sinh R - R - 1\<bar> < 1 / 10 ^ 9" by simp
  with s show ?thesis by simp
qed

text \<open>
  C1, amended: for every \<open>e \<ge> 2\<close> and every \<open>Mh\<close> with \<open>|Mh| \<le> 1000\<close>, \<open>solve_H\<close>
  with the default \<open>tol\<close> and \<open>maxit\<close> returns \<open>H\<close> with
  \<open>|e sinh(H) - H - Mh| < 1e-9\<close>. The elements of the program (\<open>e\<close> about 6.11) and
  its default grid (\<open>|Mh| \<le> 200 / tau\<close>, about 25.2) are inside this range.
\<close>

theorem solve_H_residual_bound:
  assumes "2 \<le> e" "\<bar>Mh\<bar> \<le> 1000"
  shows "\<exists>R. solve_H_default Mh e = Inr R \<and> \<bar>e * sinh R - R - Mh\<bar> < 1 / 10 ^ 9"
proof -
  have pos: "\<exists>R. solve_H_default m e = Inr R \<and> 0 \<le> kepler_f m e R
                \<and> kepler_f m e R < 1 / 10 ^ 9" if "0 \<le> m" "m \<le> 1000" for m
  proof (cases "m \<le> 1")
    case True
    from solve_H_default_residual_nonneg [OF assms(1) that(1) True] show ?thesis .
  next
    case False
    then have "1 < m" by simp
    from solve_H_default_residual_large [OF assms(1) this that(2)] show ?thesis .
  qed
  show ?thesis
  proof (cases "0 \<le> Mh")
    case True
    with assms(2) have "Mh \<le> 1000" by simp
    from pos [OF True this] show ?thesis by (auto simp add: kepler_f_def)
  next
    case False
    with assms(2) have m: "0 \<le> - Mh" "- Mh \<le> 1000" by simp_all
    from pos [OF m] obtain R where
      R: "solve_H_default (- Mh) e = Inr R" "0 \<le> kepler_f (- Mh) e R"
        "kepler_f (- Mh) e R < 1 / 10 ^ 9"
      by blast
    have e1: "1 < e" using assms(1) by simp
    from solve_H_default_neg [OF e1 R(1)] have "solve_H_default Mh e = Inr (- R)" by simp
    moreover have "e * sinh (- R) - (- R) - Mh = - kepler_f (- Mh) e R"
      by (simp add: kepler_f_def)
    ultimately show ?thesis using R(2,3) by (intro exI [of _ "- R"]) simp
  qed
qed

theorem solve_H_residual_bound_witness:
  "(2::real) \<le> eccentricity q_nominal a_nominal \<and> \<bar>- 200 / tau_scale a_nominal mu_sun\<bar> \<le> 1000
   \<and> (\<exists>R. solve_H_default (- 200 / tau_scale a_nominal mu_sun)
                (eccentricity q_nominal a_nominal) = Inr R
          \<and> \<bar>eccentricity q_nominal a_nominal * sinh R - R
               - (- 200 / tau_scale a_nominal mu_sun)\<bar> < 1 / 10 ^ 9)"
proof -
  have e: "(2::real) \<le> eccentricity q_nominal a_nominal"
    by (simp add: eccentricity_def q_nominal_def a_nominal_def)
  have "1 \<le> \<bar>a_nominal\<bar> ^ 3 / mu_sun"
    by (simp add: a_nominal_def mu_sun_def k_gauss_def power_divide)
  then have "1 \<le> tau_scale a_nominal mu_sun"
    unfolding tau_scale_def by simp
  then have m: "\<bar>- 200 / tau_scale a_nominal mu_sun\<bar> \<le> 1000"
    by (simp add: field_simps)
  from solve_H_residual_bound [OF e m] e m show ?thesis by blast
qed

text \<open>
  C2. For every \<open>e > 1\<close>, \<open>solve_H(0, e)\<close> returns exactly 0, whatever the tolerance and
  the iteration bound are.
\<close>

theorem solve_H_zero: "1 < e \<Longrightarrow> solve_H 0 e tol maxit = Inr 0"
  by (simp add: solve_H_def initial_guess_value newton_loop_zero)

theorem solve_H_zero_witness:
  "(1::real) < 2 \<and> solve_H 0 2 default_tol default_maxit = Inr 0"
  using solve_H_zero [of 2 default_tol default_maxit] by simp

text \<open>
  C3. \<open>solve_H\<close> is odd in its first argument: for \<open>e > 1\<close> both calls return, and
  \<open>solve_H(-Mh, e)\<close> is the negation of \<open>solve_H(Mh, e)\<close>.
\<close>

theorem solve_H_odd:
  assumes "1 < e"
  shows "\<exists>R. solve_H Mh e tol maxit = Inr R \<and> solve_H (- Mh) e tol maxit = Inr (- R)"
proof -
  from initial_guess_odd [OF assms] obtain H0 where
    g: "initial_guess Mh e = Inr H0" "initial_guess (- Mh) e = Inr (- H0)"
    by blast
  from newton_loop_odd [OF assms, of Mh tol "nat maxit" H0] g show ?thesis
    by (simp add: solve_H_def)
qed

theorem solve_H_odd_witness:
  "(1::real) < 2 \<and>
   (\<exists>R. solve_H 3 2 default_tol default_maxit = Inr R
        \<and> solve_H (- 3) 2 default_tol default_maxit = Inr (- R))"
  using solve_H_odd [of 2 3 default_tol default_maxit] by simp

text \<open>
  C4. The starting value of the Newton iteration: \<open>asinh(Mh / e)\<close> when \<open>|Mh| > 1\<close>,
  and \<open>Mh / (e - 1)\<close> when \<open>|Mh| \<le> 1\<close>; the loop of \<open>solve_H\<close> starts from it.
\<close>

theorem solve_H_initial_guess:
  assumes "1 < e"
  shows "(1 < \<bar>Mh\<bar> \<longrightarrow>
            initial_guess Mh e = Inr (arsinh (Mh / e))
          \<and> solve_H Mh e tol maxit = newton_loop Mh e tol (nat maxit) (arsinh (Mh / e)))
       \<and> (\<bar>Mh\<bar> \<le> 1 \<longrightarrow>
            initial_guess Mh e = Inr (Mh / (e - 1))
          \<and> solve_H Mh e tol maxit = newton_loop Mh e tol (nat maxit) (Mh / (e - 1)))"
  using assms by (simp add: solve_H_def initial_guess_value)

theorem solve_H_initial_guess_witness:
  "(1::real) < 2 \<and> 1 < \<bar>3::real\<bar> \<and> initial_guess 3 2 = Inr (arsinh (3 / 2))
   \<and> \<bar>1 / 2 :: real\<bar> \<le> 1 \<and> initial_guess (1 / 2) 2 = Inr ((1 / 2) / (2 - 1))"
  using solve_H_initial_guess [of 2 3 default_tol default_maxit]
    solve_H_initial_guess [of 2 "1 / 2" default_tol default_maxit]
  by simp



text \<open>
  C6. For \<open>e > 1\<close> the denominator \<open>f'(H) = e cosh(H) - 1\<close> is positive at every real
  \<open>H\<close>, so the division \<open>-f / fp\<close> of the loop body returns a value and the loop never
  ends in a division by zero.
\<close>

theorem newton_denominator_positive:
  assumes "1 < e"
  shows "0 < kepler_fp e h
       \<and> py_div (- kepler_f Mh e h) (kepler_fp e h) = Inr (- kepler_f Mh e h / kepler_fp e h)
       \<and> newton_loop Mh e tol n h \<noteq> Inl ZeroDivisionError"
proof -
  have p: "0 < kepler_fp e h" by (rule kepler_fp_pos [OF assms])
  from newton_loop_trace [OF assms, of n Mh tol h]
  have "newton_loop Mh e tol n h \<noteq> Inl ZeroDivisionError" by auto
  with p show ?thesis by (simp add: py_div_def)
qed

theorem newton_denominator_positive_witness:
  "(1::real) < 2 \<and> 0 < kepler_fp 2 5
   \<and> newton_loop 3 2 default_tol 100 5 \<noteq> Inl ZeroDivisionError"
  using newton_denominator_positive [of 2 5 3 default_tol 100] by simp

section \<open>The propagation against its specification\<close>










end
